theory Spec2Isabelle
  imports
    Main
    "HOL-Library.Multiset"
    "HOL-Library.Char_ord"
    "HOL-Library.List_Lexorder"
    "HOL-Library.Product_Lexorder"
    "HOL-Library.Log_Nat"
begin

section \<open>Python values held by the trip collection\<close>

text \<open>
  The collection of \<^verbatim>\<open>app/routes.py\<close> is a module-level Python list \<^verbatim>\<open>trips\<close> of
  dictionaries. Their values come from \<^verbatim>\<open>request.get_json()\<close>, so they are JSON values
  as Python's \<^verbatim>\<open>json\<close> module decodes them: \<^verbatim>\<open>None\<close>, \<^verbatim>\<open>bool\<close>, unbounded \<^verbatim>\<open>int\<close>,
  \<^verbatim>\<open>float\<close>, \<^verbatim>\<open>str\<close>, \<^verbatim>\<open>list\<close> and \<^verbatim>\<open>dict\<close> with string keys.

  A float is represented by the exact rational value of the binary64 number, with the
  signed zero, the two infinities and NaN apart. Comparisons of Python numbers are exact
  (also between \<^verbatim>\<open>int\<close> and \<^verbatim>\<open>float\<close>), so they are comparisons of these values;
  arithmetic rounds its exact result with \<open>round_double\<close> below.
\<close>

datatype pyfloat = Finite rat | NegZero | PosInf | NegInf | NaN

datatype json =
    JNull
  | JBool bool
  | JInt int
  | JFloat pyfloat
  | JStr string
  | JList "json list"
  | JDict "(string \<times> json) list"

text \<open>
  A \<open>JDict\<close> lists the items of the dictionary; a key is looked up with \<open>map_of\<close>.
  Uncaught Python exceptions are values: a handler that raises returns \<open>Inl\<close> of the
  exception (Flask turns it into its generic internal-error page).
\<close>

datatype py_exc = TypeError | ValueError | OverflowError | KeyError | ZeroDivisionError

definition and_then :: "py_exc + 'a \<Rightarrow> ('a \<Rightarrow> py_exc + 'b) \<Rightarrow> py_exc + 'b" where
  "and_then r f = (case r of Inl e \<Rightarrow> Inl e | Inr x \<Rightarrow> f x)"

text \<open>
  The builtins whose full definition lies outside the repository and is not needed by
  any property below are parameters: the string parsers of \<^verbatim>\<open>int(s)\<close> and
  \<^verbatim>\<open>float(s)\<close> (\<open>None\<close> is \<^verbatim>\<open>ValueError\<close>), the ordering \<^verbatim>\<open><\<close> of two lists, and
  the value of \<^verbatim>\<open>sum\<close> on a list of numbers that holds a float (\<open>None\<close> is
  \<^verbatim>\<open>OverflowError\<close>, raised for an integer too large for a float). The last one depends
  on the interpreter: CPython adds the floats one by one up to version 3.11 and with a
  compensation term from 3.12 on, and the two sums can differ in the last bits.
\<close>

record builtins =
  int_of_str :: "string \<Rightarrow> int option"
  float_of_str :: "string \<Rightarrow> pyfloat option"
  list_lt :: "json list \<Rightarrow> json list \<Rightarrow> py_exc + bool"
  float_sum :: "json list \<Rightarrow> pyfloat option"

subsection \<open>Rounding to binary64\<close>

definition pow2 :: "int \<Rightarrow> rat" where
  "pow2 k = (if 0 \<le> k then 2 ^ nat k else 1 / 2 ^ nat (- k))"

definition round_half_even :: "rat \<Rightarrow> int" where
  "round_half_even x =
     (let f = \<lfloor>x\<rfloor>; d = x - of_int f
      in if d < 1 / 2 then f else if 1 / 2 < d then f + 1
         else if even f then f else f + 1)"

text \<open>\<open>ilog2 a\<close> is \<open>\<lfloor>log\<^sub>2 a\<rfloor>\<close> for a positive rational \<open>a\<close>.\<close>

definition ilog2 :: "rat \<Rightarrow> int" where
  "ilog2 a =
     (let (p, q) = quotient_of a; k = bitlen p - bitlen q
      in if a < pow2 k then k - 1 else k)"

text \<open>
  Round to nearest, ties to even, with 53 bits of precision, subnormals below
  \<open>2\<^sup>-\<^sup>1\<^sup>0\<^sup>2\<^sup>2\<close> and overflow to an infinity from \<open>2\<^sup>1\<^sup>0\<^sup>2\<^sup>4\<close> on.
\<close>

definition round_double :: "rat \<Rightarrow> pyfloat" where
  "round_double x =
     (if x = 0 then Finite 0
      else
        let a = \<bar>x\<bar>;
            q = max (ilog2 a - 52) (- 1074);
            m = round_half_even (a / pow2 q);
            v = of_int m * pow2 q
        in if pow2 1024 \<le> v then (if 0 < x then PosInf else NegInf)
           else if m = 0 then (if 0 < x then Finite 0 else NegZero)
           else Finite (if 0 < x then v else - v))"

subsection \<open>Truthiness, membership, subscription\<close>

text \<open>\<^verbatim>\<open>if not data\<close>: the truth value of a JSON value.\<close>

fun py_truthy :: "json \<Rightarrow> bool" where
  "py_truthy JNull = False"
| "py_truthy (JBool b) = b"
| "py_truthy (JInt i) = (i \<noteq> 0)"
| "py_truthy (JFloat f) = (f \<noteq> Finite 0 \<and> f \<noteq> NegZero)"
| "py_truthy (JStr s) = (s \<noteq> [])"
| "py_truthy (JList xs) = (xs \<noteq> [])"
| "py_truthy (JDict kvs) = (kvs \<noteq> [])"

text \<open>\<^verbatim>\<open>f in s\<close> for two strings: \<open>f\<close> occurs in \<open>s\<close> as a substring.\<close>

fun str_contains :: "string \<Rightarrow> string \<Rightarrow> bool" where
  "str_contains [] f = (f = [])"
| "str_contains (c # cs) f = (take (length f) (c # cs) = f \<or> str_contains cs f)"

text \<open>
  \<^verbatim>\<open>field in data\<close> for a string \<^verbatim>\<open>field\<close>: a key of a dict, an element of a list (only
  an equal string compares equal to a string), a substring of a string; any other value
  is not iterable.
\<close>

fun py_contains :: "json \<Rightarrow> string \<Rightarrow> py_exc + bool" where
  "py_contains (JDict kvs) f = Inr (map_of kvs f \<noteq> None)"
| "py_contains (JList xs) f = Inr (JStr f \<in> set xs)"
| "py_contains (JStr s) f = Inr (str_contains s f)"
| "py_contains JNull f = Inl TypeError"
| "py_contains (JBool b) f = Inl TypeError"
| "py_contains (JInt i) f = Inl TypeError"
| "py_contains (JFloat x) f = Inl TypeError"

text \<open>\<^verbatim>\<open>data[field]\<close> for a string \<^verbatim>\<open>field\<close>.\<close>

fun py_getitem :: "json \<Rightarrow> string \<Rightarrow> py_exc + json" where
  "py_getitem (JDict kvs) f = (case map_of kvs f of None \<Rightarrow> Inl KeyError | Some v \<Rightarrow> Inr v)"
| "py_getitem (JList xs) f = Inl TypeError"
| "py_getitem (JStr s) f = Inl TypeError"
| "py_getitem JNull f = Inl TypeError"
| "py_getitem (JBool b) f = Inl TypeError"
| "py_getitem (JInt i) f = Inl TypeError"
| "py_getitem (JFloat x) f = Inl TypeError"

subsection \<open>The conversions \<^verbatim>\<open>int(v)\<close> and \<^verbatim>\<open>float(v)\<close>\<close>

definition truncate_rat :: "rat \<Rightarrow> int" where
  "truncate_rat r = (if 0 \<le> r then \<lfloor>r\<rfloor> else \<lceil>r\<rceil>)"

fun py_int :: "builtins \<Rightarrow> json \<Rightarrow> py_exc + int" where
  "py_int B JNull = Inl TypeError"
| "py_int B (JBool b) = Inr (if b then 1 else 0)"
| "py_int B (JInt i) = Inr i"
| "py_int B (JFloat (Finite r)) = Inr (truncate_rat r)"
| "py_int B (JFloat NegZero) = Inr 0"
| "py_int B (JFloat PosInf) = Inl OverflowError"
| "py_int B (JFloat NegInf) = Inl OverflowError"
| "py_int B (JFloat NaN) = Inl ValueError"
| "py_int B (JStr s) = (case int_of_str B s of None \<Rightarrow> Inl ValueError | Some i \<Rightarrow> Inr i)"
| "py_int B (JList xs) = Inl TypeError"
| "py_int B (JDict kvs) = Inl TypeError"

text \<open>\<^verbatim>\<open>float(i)\<close> of an integer rounds it; an integer that rounds to an infinity raises.\<close>

definition float_of_int :: "int \<Rightarrow> py_exc + pyfloat" where
  "float_of_int i =
     (case round_double (of_int i) of
        PosInf \<Rightarrow> Inl OverflowError
      | NegInf \<Rightarrow> Inl OverflowError
      | f \<Rightarrow> Inr f)"

fun py_float :: "builtins \<Rightarrow> json \<Rightarrow> py_exc + pyfloat" where
  "py_float B JNull = Inl TypeError"
| "py_float B (JBool b) = Inr (Finite (if b then 1 else 0))"
| "py_float B (JInt i) = float_of_int i"
| "py_float B (JFloat f) = Inr f"
| "py_float B (JStr s) = (case float_of_str B s of None \<Rightarrow> Inl ValueError | Some f \<Rightarrow> Inr f)"
| "py_float B (JList xs) = Inl TypeError"
| "py_float B (JDict kvs) = Inl TypeError"

section \<open>The trip collection\<close>

text \<open>
  A trip is a dictionary with exactly the keys \<^verbatim>\<open>id\<close>, \<^verbatim>\<open>destination\<close>, \<^verbatim>\<open>days\<close>,
  \<^verbatim>\<open>price\<close>, \<^verbatim>\<open>hotel\<close> and \<^verbatim>\<open>rating\<close>: \<^verbatim>\<open>create_trip\<close> builds it with these six and
  \<^verbatim>\<open>update_trip\<close> assigns to five of them only. The \<^verbatim>\<open>id\<close> is always an integer
  (\<^verbatim>\<open>_get_next_id\<close> returns one); the other values are whatever the caller sent, since
  \<^verbatim>\<open>update_trip\<close> stores them as they are.
\<close>

record trip =
  trip_id :: int
  destination :: json
  days :: json
  price :: json
  hotel :: json
  rating :: json

datatype field = Destination | Days | Price | Hotel | Rating

fun field_name :: "field \<Rightarrow> string" where
  "field_name Destination = ''destination''"
| "field_name Days = ''days''"
| "field_name Price = ''price''"
| "field_name Hotel = ''hotel''"
| "field_name Rating = ''rating''"

text \<open>The list \<^verbatim>\<open>["destination", "days", "price", "hotel", "rating"]\<close> of both handlers.\<close>

definition required :: "field list" where
  "required = [Destination, Days, Price, Hotel, Rating]"

fun get_field :: "field \<Rightarrow> trip \<Rightarrow> json" where
  "get_field Destination t = destination t"
| "get_field Days t = days t"
| "get_field Price t = price t"
| "get_field Hotel t = hotel t"
| "get_field Rating t = rating t"

text \<open>\<^verbatim>\<open>trip[field] = v\<close>.\<close>

fun set_field :: "field \<Rightarrow> json \<Rightarrow> trip \<Rightarrow> trip" where
  "set_field Destination v t = t\<lparr>destination := v\<rparr>"
| "set_field Days v t = t\<lparr>days := v\<rparr>"
| "set_field Price v t = t\<lparr>price := v\<rparr>"
| "set_field Hotel v t = t\<lparr>hotel := v\<rparr>"
| "set_field Rating v t = t\<lparr>rating := v\<rparr>"

subsection \<open>Responses\<close>

text \<open>
  The messages of the handlers are Russian literals; each is a constructor here:
  \<open>InvalidJson\<close> for the text "incorrect JSON", \<open>MissingField f\<close> for "field is missing: "
  followed by the name \<open>f\<close>, \<open>TripNotFound\<close> for "trip not found", \<open>NoData\<close> for
  "no data" and \<open>TripDeleted\<close> for "trip deleted".
\<close>

datatype message = InvalidJson | MissingField string | TripNotFound | NoData | TripDeleted

record field_stats =
  stat_min :: json
  stat_max :: json
  stat_avg :: pyfloat

record stats =
  days_stats :: field_stats
  price_stats :: field_stats
  rating_stats :: field_stats

datatype body =
    Trips "trip list"
  | OneTrip trip
  | Error message
  | Message message
  | Stats stats

text \<open>A response is a body and an HTTP status; a handler returns one or raises.\<close>

type_synonym response = "body \<times> nat"
type_synonym outcome = "py_exc + response"

subsection \<open>\<^verbatim>\<open>_get_next_id\<close>\<close>

text \<open>\<^verbatim>\<open>max(...)\<close> keeps the first item and replaces it by each later, greater one.\<close>

fun py_max_int :: "int \<Rightarrow> int list \<Rightarrow> int" where
  "py_max_int m [] = m"
| "py_max_int m (x # xs) = py_max_int (if m < x then x else m) xs"

definition get_next_id :: "trip list \<Rightarrow> int" where
  "get_next_id ts =
     (case ts of
        [] \<Rightarrow> 1
      | t # rest \<Rightarrow> py_max_int (trip_id t) (map trip_id rest) + 1)"

subsection \<open>\<^verbatim>\<open>create_trip\<close>\<close>

text \<open>The loop over the required fields: the first one that is not in the body.\<close>

fun first_missing :: "json \<Rightarrow> field list \<Rightarrow> py_exc + field option" where
  "first_missing data [] = Inr None"
| "first_missing data (f # fs) =
     (case py_contains data (field_name f) of
        Inl e \<Rightarrow> Inl e
      | Inr False \<Rightarrow> Inr (Some f)
      | Inr True \<Rightarrow> first_missing data fs)"

text \<open>The dictionary display of \<^verbatim>\<open>new_trip\<close>, its values evaluated in order.\<close>

definition new_trip :: "builtins \<Rightarrow> trip list \<Rightarrow> json \<Rightarrow> py_exc + trip" where
  "new_trip B ts data =
     and_then (py_getitem data ''destination'') (\<lambda>dest.
     and_then (and_then (py_getitem data ''days'') (py_int B)) (\<lambda>d.
     and_then (and_then (py_getitem data ''price'') (py_float B)) (\<lambda>p.
     and_then (py_getitem data ''hotel'') (\<lambda>h.
     and_then (and_then (py_getitem data ''rating'') (py_float B)) (\<lambda>r.
       Inr \<lparr>trip_id = get_next_id ts, destination = dest, days = JInt d,
            price = JFloat p, hotel = h, rating = JFloat r\<rparr>)))))"

definition create_trip :: "builtins \<Rightarrow> trip list \<Rightarrow> json \<Rightarrow> trip list \<times> outcome" where
  "create_trip B ts data =
     (if \<not> py_truthy data then (ts, Inr (Error InvalidJson, 400))
      else
        case first_missing data required of
          Inl e \<Rightarrow> (ts, Inl e)
        | Inr (Some f) \<Rightarrow> (ts, Inr (Error (MissingField (field_name f)), 400))
        | Inr None \<Rightarrow>
            (case new_trip B ts data of
               Inl e \<Rightarrow> (ts, Inl e)
             | Inr t \<Rightarrow> (ts @ [t], Inr (OneTrip t, 201))))"

subsection \<open>\<^verbatim>\<open>update_trip\<close>\<close>

text \<open>
  The loop assigns in place, so what it has assigned before an exception stays: the
  loop returns the trip as it stands together with the exception, if any.
\<close>

fun update_fields :: "json \<Rightarrow> trip \<Rightarrow> field list \<Rightarrow> trip \<times> py_exc option" where
  "update_fields data t [] = (t, None)"
| "update_fields data t (f # fs) =
     (case py_contains data (field_name f) of
        Inl e \<Rightarrow> (t, Some e)
      | Inr False \<Rightarrow> update_fields data t fs
      | Inr True \<Rightarrow>
          (case py_getitem data (field_name f) of
             Inl e \<Rightarrow> (t, Some e)
           | Inr v \<Rightarrow> update_fields data (set_field f v t) fs))"

text \<open>The trip found by \<^verbatim>\<open>next(...)\<close> is the first with the id; it alone is mutated.\<close>

fun replace_first :: "int \<Rightarrow> trip \<Rightarrow> trip list \<Rightarrow> trip list" where
  "replace_first i t' [] = []"
| "replace_first i t' (t # ts) =
     (if trip_id t = i then t' # ts else t # replace_first i t' ts)"

definition update_trip :: "trip list \<Rightarrow> int \<Rightarrow> json \<Rightarrow> trip list \<times> outcome" where
  "update_trip ts i data =
     (case find (\<lambda>t. trip_id t = i) ts of
        None \<Rightarrow> (ts, Inr (Error TripNotFound, 404))
      | Some t \<Rightarrow>
          (case update_fields data t required of
             (t', Some e) \<Rightarrow> (replace_first i t' ts, Inl e)
           | (t', None) \<Rightarrow> (replace_first i t' ts, Inr (OneTrip t', 200))))"

subsection \<open>\<^verbatim>\<open>delete_trip\<close>\<close>

definition delete_trip :: "trip list \<Rightarrow> int \<Rightarrow> trip list \<times> outcome" where
  "delete_trip ts i =
     (let ts' = filter (\<lambda>t. trip_id t \<noteq> i) ts
      in if length ts' = length ts then (ts', Inr (Error TripNotFound, 404))
         else (ts', Inr (Message TripDeleted, 200)))"

subsection \<open>Comparison of values\<close>

text \<open>
  \<^verbatim>\<open>bool\<close>, \<^verbatim>\<open>int\<close> and \<^verbatim>\<open>float\<close> compare by their exact values. \<open>number_value\<close> gives
  the value of a number in the carrier of the floats (an integer keeps its exact value,
  it is not rounded).
\<close>

fun number_value :: "json \<Rightarrow> pyfloat option" where
  "number_value (JBool b) = Some (Finite (if b then 1 else 0))"
| "number_value (JInt i) = Some (Finite (of_int i))"
| "number_value (JFloat f) = Some f"
| "number_value JNull = None"
| "number_value (JStr s) = None"
| "number_value (JList xs) = None"
| "number_value (JDict kvs) = None"

fun inf_rank :: "pyfloat \<Rightarrow> int" where
  "inf_rank NegInf = - 1"
| "inf_rank PosInf = 1"
| "inf_rank (Finite r) = 0"
| "inf_rank NegZero = 0"
| "inf_rank NaN = 0"

fun fin_val :: "pyfloat \<Rightarrow> rat" where
  "fin_val (Finite r) = r"
| "fin_val NegZero = 0"
| "fin_val PosInf = 0"
| "fin_val NegInf = 0"
| "fin_val NaN = 0"

text \<open>Every comparison with NaN is false; \<^verbatim>\<open>-0.0\<close> and \<^verbatim>\<open>0.0\<close> are equal.\<close>

definition float_lt :: "pyfloat \<Rightarrow> pyfloat \<Rightarrow> bool" where
  "float_lt x y \<longleftrightarrow>
     x \<noteq> NaN \<and> y \<noteq> NaN \<and>
     (inf_rank x < inf_rank y \<or> (inf_rank x = inf_rank y \<and> fin_val x < fin_val y))"

text \<open>
  \<^verbatim>\<open>a < b\<close>: numbers by value, strings by code points (the order of their UTF-8 bytes),
  lists by the builtin; every other pair of JSON values raises \<^verbatim>\<open>TypeError\<close>, also
  \<^verbatim>\<open>None < None\<close> and two dicts.
\<close>

definition py_lt :: "builtins \<Rightarrow> json \<Rightarrow> json \<Rightarrow> py_exc + bool" where
  "py_lt B a b =
     (case (number_value a, number_value b) of
        (Some x, Some y) \<Rightarrow> Inr (float_lt x y)
      | _ \<Rightarrow>
        (case (a, b) of
           (JStr s, JStr t) \<Rightarrow> Inr (s < t)
         | (JList xs, JList ys) \<Rightarrow> list_lt B xs ys
         | _ \<Rightarrow> Inl TypeError))"

subsection \<open>\<^verbatim>\<open>get_trips\<close>\<close>

text \<open>
  \<^verbatim>\<open>list.sort(key=..., reverse=...)\<close> is the builtin stable sort, which compares keys
  with \<^verbatim>\<open><\<close> only and lets an exception of a comparison through. A stable insertion
  sort stands for it: where \<^verbatim>\<open><\<close> is a total preorder on the keys every stable sort
  returns the same list. (On other keys, such as numbers with a NaN among them, the
  builtin sort compares other pairs and can return another order; no property below
  is about such keys.) With \<^verbatim>\<open>reverse=True\<close> the list is reversed, sorted and
  reversed again, which keeps records with equal keys in their original order.
\<close>

fun insort_py :: "builtins \<Rightarrow> (trip \<Rightarrow> json) \<Rightarrow> trip \<Rightarrow> trip list \<Rightarrow> py_exc + trip list" where
  "insort_py B k x [] = Inr [x]"
| "insort_py B k x (y # ys) =
     (case py_lt B (k y) (k x) of
        Inl e \<Rightarrow> Inl e
      | Inr True \<Rightarrow> and_then (insort_py B k x ys) (\<lambda>r. Inr (y # r))
      | Inr False \<Rightarrow> Inr (x # y # ys))"

fun sort_py :: "builtins \<Rightarrow> (trip \<Rightarrow> json) \<Rightarrow> trip list \<Rightarrow> py_exc + trip list" where
  "sort_py B k [] = Inr []"
| "sort_py B k (x # xs) = and_then (sort_py B k xs) (insort_py B k x)"

definition list_sort ::
  "builtins \<Rightarrow> (trip \<Rightarrow> json) \<Rightarrow> bool \<Rightarrow> trip list \<Rightarrow> py_exc + trip list" where
  "list_sort B k reverse xs =
     (if reverse then and_then (sort_py B k (rev xs)) (\<lambda>r. Inr (rev r))
      else sort_py B k xs)"

text \<open>\<^verbatim>\<open>x.get(sort)\<close>: the value under a key, \<^verbatim>\<open>None\<close> when the trip has no such key.\<close>

definition trip_get :: "string \<Rightarrow> trip \<Rightarrow> json option" where
  "trip_get s t =
     (if s = ''id'' then Some (JInt (trip_id t))
      else if s = ''destination'' then Some (destination t)
      else if s = ''days'' then Some (days t)
      else if s = ''price'' then Some (price t)
      else if s = ''hotel'' then Some (hotel t)
      else if s = ''rating'' then Some (rating t)
      else None)"

definition sort_key_of :: "string \<Rightarrow> trip \<Rightarrow> json" where
  "sort_key_of s t = (case trip_get s t of None \<Rightarrow> JNull | Some v \<Rightarrow> v)"

text \<open>
  \<^verbatim>\<open>str.lower()\<close> on the ASCII letters. No other character has a lower-case form among
  the letters of \<^verbatim>\<open>desc\<close>, so the test \<^verbatim>\<open>order == "desc"\<close> is exact.
\<close>

definition lower_char :: "char \<Rightarrow> char" where
  "lower_char c =
     (if CHR ''A'' \<le> c \<and> c \<le> CHR ''Z'' then char_of (of_char c + (32 :: nat)) else c)"

text \<open>The query arguments \<^verbatim>\<open>sort\<close> and \<^verbatim>\<open>order\<close> are strings, or absent.\<close>

definition get_trips :: "builtins \<Rightarrow> trip list \<Rightarrow> string option \<Rightarrow> string option \<Rightarrow> outcome" where
  "get_trips B ts sort_arg order_arg =
     (let order = map lower_char (case order_arg of None \<Rightarrow> ''asc'' | Some s \<Rightarrow> s)
      in case sort_arg of
           None \<Rightarrow> Inr (Trips ts, 200)
         | Some s \<Rightarrow>
            (case ts of
               [] \<Rightarrow> Inr (Trips ts, 200)
             | t0 # rest \<Rightarrow>
                if s \<noteq> [] \<and> trip_get s t0 \<noteq> None
                then and_then (list_sort B (sort_key_of s) (order = ''desc'') ts)
                       (\<lambda>r. Inr (Trips r, 200))
                else Inr (Trips ts, 200)))"

subsection \<open>\<^verbatim>\<open>trips_stats\<close>\<close>







text \<open>The integer that a \<^verbatim>\<open>bool\<close> or an \<^verbatim>\<open>int\<close> is.\<close>

fun int_value :: "json \<Rightarrow> int option" where
  "int_value (JBool b) = Some (if b then 1 else 0)"
| "int_value (JInt i) = Some i"
| "int_value JNull = None"
| "int_value (JFloat f) = None"
| "int_value (JStr s) = None"
| "int_value (JList xs) = None"
| "int_value (JDict kvs) = None"

text \<open>An operand of mixed arithmetic as a float: an integer is converted.\<close>

definition as_float :: "json \<Rightarrow> (py_exc + pyfloat) option" where
  "as_float v =
     (case v of
        JFloat f \<Rightarrow> Some (Inr f)
      | _ \<Rightarrow> (case int_value v of None \<Rightarrow> None | Some i \<Rightarrow> Some (float_of_int i)))"







subsection \<open>The states the service can be in\<close>

text \<open>
  The collection starts empty and changes only through the three handlers that write
  it, called with any body and any id.
\<close>

inductive reachable :: "builtins \<Rightarrow> trip list \<Rightarrow> bool" for B :: builtins where
  start: "reachable B []"
| created: "reachable B ts \<Longrightarrow> reachable B (fst (create_trip B ts data))"
| updated: "reachable B ts \<Longrightarrow> reachable B (fst (update_trip ts i data))"
| deleted: "reachable B ts \<Longrightarrow> reachable B (fst (delete_trip ts i))"

text \<open>The keys of a trip, which are the sort fields that \<^verbatim>\<open>get_trips\<close> recognises.\<close>

definition trip_keys :: "string list" where
  "trip_keys = [''id'', ''destination'', ''days'', ''price'', ''hotel'', ''rating'']"

text \<open>The ids of a state are distinct and positive (shown below for every state).\<close>

definition ids_ok :: "trip list \<Rightarrow> bool" where
  "ids_ok ts \<longleftrightarrow> distinct (map trip_id ts) \<and> (\<forall>t \<in> set ts. 0 < trip_id t)"

subsection \<open>Notions used by the properties\<close>

text \<open>A number that is not NaN, and a string.\<close>

definition is_number :: "json \<Rightarrow> bool" where
  "is_number v = (case number_value v of None \<Rightarrow> False | Some x \<Rightarrow> x \<noteq> NaN)"

definition is_string :: "json \<Rightarrow> bool" where
  "is_string v = (case v of JStr s \<Rightarrow> True | _ \<Rightarrow> False)"

text \<open>Keys that \<^verbatim>\<open><\<close> orders totally: all numbers, or all strings.\<close>

definition comparable_keys :: "json list \<Rightarrow> bool" where
  "comparable_keys vs \<longleftrightarrow> list_all is_number vs \<or> list_all is_string vs"

text \<open>Two keys are tied when neither is less than the other.\<close>

definition key_tied :: "builtins \<Rightarrow> json \<Rightarrow> json \<Rightarrow> bool" where
  "key_tied B a b \<longleftrightarrow> py_lt B a b = Inr False \<and> py_lt B b a = Inr False"

text \<open>The test \<^verbatim>\<open>order == "desc"\<close> of \<^verbatim>\<open>get_trips\<close> on the lowered argument.\<close>

definition descending :: "string option \<Rightarrow> bool" where
  "descending order_arg \<longleftrightarrow>
     map lower_char (case order_arg of None \<Rightarrow> ''asc'' | Some s \<Rightarrow> s) = ''desc''"

text \<open>The position of a number and of a string in the order of \<^verbatim>\<open><\<close>.\<close>

definition num_rank :: "json \<Rightarrow> int \<times> rat" where
  "num_rank v = (case number_value v of None \<Rightarrow> (0, 0) | Some x \<Rightarrow> (inf_rank x, fin_val x))"

definition str_rank :: "json \<Rightarrow> string" where
  "str_rank v = (case v of JStr s \<Rightarrow> s | _ \<Rightarrow> [])"







subsection \<open>Example data\<close>

text \<open>
  The examples are evaluated with \<open>plain_builtins\<close>: its parsers read a plain decimal
  literal (an optional sign and ASCII digits), on which they agree with \<^verbatim>\<open>int\<close> and
  \<^verbatim>\<open>float\<close>, and reject every other string; no example compares two lists. Its sum
  of floats adds them from left to right, each addition rounded, as CPython does up to
  version 3.11; the compensated sum of the later versions gives the same float
  whenever no addition is inexact, as in every example. The theorems themselves hold
  for all builtins.
\<close>

text \<open>The sum of two floats: the exact sum, rounded.\<close>

definition float_add :: "pyfloat \<Rightarrow> pyfloat \<Rightarrow> pyfloat" where
  "float_add x y =
     (if x = NaN \<or> y = NaN then NaN
      else if inf_rank x \<noteq> 0 then (if inf_rank y \<noteq> 0 \<and> y \<noteq> x then NaN else x)
      else if inf_rank y \<noteq> 0 then y
      else if x = NegZero then y
      else if y = NegZero then x
      else round_double (fin_val x + fin_val y))"

text \<open>\<^verbatim>\<open>a + b\<close>.\<close>

definition py_add :: "json \<Rightarrow> json \<Rightarrow> py_exc + json" where
  "py_add a b =
     (case (int_value a, int_value b) of
        (Some i, Some j) \<Rightarrow> Inr (JInt (i + j))
      | _ \<Rightarrow>
        (case (as_float a, as_float b) of
           (Some x, Some y) \<Rightarrow>
             and_then x (\<lambda>x'. and_then y (\<lambda>y'. Inr (JFloat (float_add x' y'))))
         | _ \<Rightarrow>
           (case (a, b) of
              (JStr s, JStr t) \<Rightarrow> Inr (JStr (s @ t))
            | (JList xs, JList ys) \<Rightarrow> Inr (JList (xs @ ys))
            | _ \<Rightarrow> Inl TypeError)))"

text \<open>The items added to an accumulator from left to right.\<close>

fun sum_from :: "json \<Rightarrow> json list \<Rightarrow> py_exc + json" where
  "sum_from acc [] = Inr acc"
| "sum_from acc (x # xs) = and_then (py_add acc x) (\<lambda>a. sum_from a xs)"

definition left_to_right_sum :: "json list \<Rightarrow> pyfloat option" where
  "left_to_right_sum xs = (case sum_from (JInt 0) xs of Inr (JFloat f) \<Rightarrow> Some f | _ \<Rightarrow> None)"

fun digits_value :: "nat \<Rightarrow> string \<Rightarrow> nat option" where
  "digits_value acc [] = Some acc"
| "digits_value acc (c # cs) =
     (if CHR ''0'' \<le> c \<and> c \<le> CHR ''9''
      then digits_value (10 * acc + (of_char c - 48)) cs else None)"

definition signed_digits :: "string \<Rightarrow> (bool \<times> nat) option" where
  "signed_digits s =
     (case s of
        [] \<Rightarrow> None
      | c # cs \<Rightarrow>
          if c = CHR ''-'' \<or> c = CHR ''+''
          then (if cs = [] then None else map_option (Pair (c = CHR ''-'')) (digits_value 0 cs))
          else map_option (Pair False) (digits_value 0 s))"

definition plain_builtins :: builtins where
  "plain_builtins =
     \<lparr>int_of_str = (\<lambda>s. map_option (\<lambda>(neg, n). if neg then - int n else int n) (signed_digits s)),
      float_of_str = (\<lambda>s. map_option
         (\<lambda>(neg, n). if n = 0 then (if neg then NegZero else Finite 0)
                      else round_double (if neg then - of_nat n else of_nat n))
         (signed_digits s)),
      list_lt = (\<lambda>xs ys. Inl TypeError),
      float_sum = left_to_right_sum\<rparr>"

definition trip_body :: "json \<Rightarrow> json \<Rightarrow> json \<Rightarrow> json \<Rightarrow> json \<Rightarrow> json" where
  "trip_body dest d p h r =
     JDict [(''destination'', dest), (''days'', d), (''price'', p), (''hotel'', h),
            (''rating'', r)]"

definition paris_body :: json where
  "paris_body =
     trip_body (JStr ''Paris'') (JInt 3) (JFloat (Finite 500)) (JStr ''Ritz'')
       (JFloat (Finite (9 / 2)))"

definition rome_body :: json where
  "rome_body =
     trip_body (JStr ''Rome'') (JInt 5) (JFloat (Finite 300)) (JStr ''Hilton'')
       (JFloat (Finite 4))"

definition paris :: trip where
  "paris =
     \<lparr>trip_id = 1, destination = JStr ''Paris'', days = JInt 3, price = JFloat (Finite 500),
      hotel = JStr ''Ritz'', rating = JFloat (Finite (9 / 2))\<rparr>"

definition rome :: trip where
  "rome =
     \<lparr>trip_id = 2, destination = JStr ''Rome'', days = JInt 5, price = JFloat (Finite 300),
      hotel = JStr ''Hilton'', rating = JFloat (Finite 4)\<rparr>"

text \<open>A body whose \<^verbatim>\<open>days\<close> is not a number, and a state whose ids are 1 and 3.\<close>

definition oslo_body :: json where
  "oslo_body = trip_body (JStr ''Oslo'') (JStr ''three'') (JInt 100) (JStr ''Inn'') (JInt 4)"

definition trips_1_3 :: "trip list" where
  "trips_1_3 = [paris, rome\<lparr>trip_id := 3\<rparr>]"

text \<open>A body without the \<^verbatim>\<open>hotel\<close> field.\<close>

definition no_hotel_body :: json where
  "no_hotel_body =
     JDict [(''destination'', JStr ''Rome''), (''days'', JInt 5), (''price'', JInt 300),
            (''rating'', JInt 4)]"

text \<open>
  A state in which \<^verbatim>\<open>update_trip\<close> has stored a string as the days of the second trip,
  and two more trips: the days of \<open>rome\<close>, \<open>oslo\<close> and \<open>bern\<close> are 5, 7 and 3, and
  \<open>bern\<close> has the price of \<open>rome\<close>.
\<close>

definition trips_mixed :: "trip list" where
  "trips_mixed = [paris, rome\<lparr>days := JStr ''five''\<rparr>]"

definition oslo :: trip where
  "oslo =
     \<lparr>trip_id = 3, destination = JStr ''Oslo'', days = JInt 7, price = JFloat (Finite 600),
      hotel = JStr ''Inn'', rating = JFloat (Finite 5)\<rparr>"

definition bern :: trip where
  "bern =
     \<lparr>trip_id = 4, destination = JStr ''Bern'', days = JInt 3, price = JFloat (Finite 300),
      hotel = JStr ''Bellevue'', rating = JFloat (Finite 3)\<rparr>"


section \<open>Properties\<close>

subsection \<open>Ids\<close>

lemma py_max_int_Max: "py_max_int m xs = Max (insert m (set xs))"
proof (induction xs arbitrary: m)
  case Nil
  then show ?case by simp
next
  case (Cons x xs)
  have "Max (insert (if m < x then x else m) (set xs)) = Max (insert m (insert x (set xs)))"
    by (cases "set xs = {}") (simp_all add: max_def)
  with Cons show ?case by simp
qed

lemma get_next_id_eq:
  "get_next_id ts = (if ts = [] then 1 else Max (trip_id ` set ts) + 1)"
  by (cases ts) (simp_all add: get_next_id_def py_max_int_Max)

lemma get_next_id_fresh: "t \<in> set ts \<Longrightarrow> trip_id t < get_next_id ts"
proof -
  assume "t \<in> set ts"
  then have "trip_id t \<le> Max (trip_id ` set ts)" by simp
  moreover from \<open>t \<in> set ts\<close> have "ts \<noteq> []" by auto
  ultimately show ?thesis by (simp add: get_next_id_eq)
qed

lemma create_trip_cases:
  "create_trip B ts data = (ts', out) \<Longrightarrow>
     (ts' = ts \<and> (\<forall>t c. out \<noteq> Inr (OneTrip t, c))) \<or>
     (\<exists>t. new_trip B ts data = Inr t \<and> ts' = ts @ [t] \<and> out = Inr (OneTrip t, 201))"
  by (auto simp: create_trip_def split: if_splits sum.splits option.splits bool.splits)

lemma new_trip_id: "new_trip B ts data = Inr t \<Longrightarrow> trip_id t = get_next_id ts"
  by (auto simp: new_trip_def and_then_def split: sum.splits)

lemma fst_create_trip:
  "fst (create_trip B ts data) = ts \<or>
   (\<exists>t. trip_id t = get_next_id ts \<and> fst (create_trip B ts data) = ts @ [t])"
  using create_trip_cases [of B ts data "fst (create_trip B ts data)" "snd (create_trip B ts data)"]
    new_trip_id [of B ts data]
  by auto

lemma set_field_id [simp]: "trip_id (set_field f v t) = trip_id t"
  by (cases f) simp_all

lemma update_fields_id: "trip_id (fst (update_fields data t fs)) = trip_id t"
  by (induction fs arbitrary: t) (auto split: sum.splits bool.splits)

lemma map_id_replace_first:
  "trip_id t' = i \<Longrightarrow> map trip_id (replace_first i t' ts) = map trip_id ts"
  by (induction ts) auto

lemma fst_update_trip_ids: "map trip_id (fst (update_trip ts i data)) = map trip_id ts"
proof (cases "find (\<lambda>t. trip_id t = i) ts")
  case None
  then show ?thesis by (simp add: update_trip_def)
next
  case (Some t)
  then have ti: "trip_id t = i" by (auto simp: find_Some_iff)
  obtain t' e where u: "update_fields data t required = (t', e)" by force
  with update_fields_id [of data t required] ti have "trip_id t' = i" by simp
  then show ?thesis using Some u
    by (cases e) (simp_all add: update_trip_def map_id_replace_first)
qed

lemma fst_delete_trip: "fst (delete_trip ts i) = filter (\<lambda>t. trip_id t \<noteq> i) ts"
  by (simp add: delete_trip_def Let_def)

lemma ids_ok_via_map:
  "ids_ok ts \<longleftrightarrow> distinct (map trip_id ts) \<and> (\<forall>i \<in> set (map trip_id ts). 0 < i)"
  by (auto simp: ids_ok_def)

lemma next_id_pos: "(\<forall>t \<in> set ts. 0 < trip_id t) \<Longrightarrow> 0 < get_next_id ts"
proof (cases ts)
  case Nil
  then show ?thesis by (simp add: get_next_id_def)
next
  case (Cons t rest)
  assume "\<forall>t \<in> set ts. 0 < trip_id t"
  with Cons have "0 < trip_id t" by simp
  moreover have "trip_id t < get_next_id ts" using Cons by (intro get_next_id_fresh) simp
  ultimately show ?thesis by simp
qed

text \<open>Every state the service reaches has distinct, positive ids.\<close>

lemma reachable_ids_ok: "reachable B ts \<Longrightarrow> ids_ok ts"
proof (induction rule: reachable.induct)
  case start
  show ?case by (simp add: ids_ok_def)
next
  case (created ts data)
  from fst_create_trip [of B ts data] show ?case
  proof
    assume "fst (create_trip B ts data) = ts"
    with created show ?thesis by simp
  next
    assume "\<exists>t. trip_id t = get_next_id ts \<and> fst (create_trip B ts data) = ts @ [t]"
    then obtain t where t: "trip_id t = get_next_id ts" "fst (create_trip B ts data) = ts @ [t]"
      by blast
    have "trip_id t \<notin> trip_id ` set ts" using get_next_id_fresh [of _ ts] t(1) by force
    moreover have "0 < trip_id t" using next_id_pos [of ts] created.IH t(1) by (simp add: ids_ok_def)
    ultimately show ?thesis using created.IH t(2) by (auto simp: ids_ok_def)
  qed
next
  case (updated ts i data)
  from updated.IH show ?case unfolding ids_ok_via_map fst_update_trip_ids by simp
next
  case (deleted ts i)
  then show ?case by (auto simp: ids_ok_def fst_delete_trip distinct_map_filter)
qed

subsection \<open>Examples of reachable states\<close>

lemmas create_eval =
  create_trip_def paris_body_def rome_body_def trip_body_def required_def new_trip_def
  and_then_def get_next_id_def

lemma paris_created:
  "create_trip plain_builtins [] paris_body = ([paris], Inr (OneTrip paris, 201))"
  by (simp add: create_eval paris_def)

lemma rome_created:
  "create_trip plain_builtins [paris] rome_body = ([paris, rome], Inr (OneTrip rome, 201))"
  by (simp add: create_eval paris_def rome_def)

lemma reachable_paris_rome: "reachable plain_builtins [paris, rome]"
proof -
  have "reachable plain_builtins (fst (create_trip plain_builtins [] paris_body))"
    by (rule reachable.created [OF reachable.start])
  then have "reachable plain_builtins [paris]" by (simp add: paris_created)
  then have "reachable plain_builtins (fst (create_trip plain_builtins [paris] rome_body))"
    by (rule reachable.created)
  then show ?thesis by (simp add: rome_created)
qed

lemma reachable_trips_1_3: "reachable plain_builtins trips_1_3"
proof -
  have c: "fst (create_trip plain_builtins [paris, rome] rome_body) =
      [paris, rome, rome\<lparr>trip_id := 3\<rparr>]"
    by (simp add: create_eval paris_def rome_def)
  have d: "fst (delete_trip [paris, rome, rome\<lparr>trip_id := 3\<rparr>] 2) = trips_1_3"
    by (simp add: delete_trip_def trips_1_3_def paris_def rome_def)
  from reachable.created [OF reachable_paris_rome, of rome_body]
  have "reachable plain_builtins [paris, rome, rome\<lparr>trip_id := 3\<rparr>]" by (simp only: c)
  from reachable.deleted [OF this, of 2] show ?thesis by (simp only: d)
qed

text \<open>Listing the two trips by price puts Rome (300.0) before Paris (500.0).\<close>

lemma paris_rome_by_price:
  "get_trips plain_builtins [paris, rome] (Some ''price'') None = Inr (Trips [rome, paris], 200)"
  by (simp add: get_trips_def list_sort_def sort_key_of_def trip_get_def lower_char_def
      py_lt_def float_lt_def and_then_def paris_def rome_def)

lemma reachable_trips_mixed: "reachable plain_builtins trips_mixed"
proof -
  have "fst (update_trip [paris, rome] 2 (JDict [(''days'', JStr ''five'')])) = trips_mixed"
    by (simp add: update_trip_def required_def trips_mixed_def paris_def rome_def)
  with reachable.updated [OF reachable_paris_rome, of 2 "JDict [(''days'', JStr ''five'')]"]
  show ?thesis by simp
qed

subsection \<open>Creating assigns the next id\<close>

lemma first_missing_found:
  "(\<forall>g \<in> set pre. map_of kvs (field_name g) \<noteq> None) \<Longrightarrow> map_of kvs (field_name f) = None \<Longrightarrow>
     first_missing (JDict kvs) (pre @ f # post) = Inr (Some f)"
  by (induction pre) auto

lemma first_missing_none:
  "(\<forall>g \<in> set fs. map_of kvs (field_name g) \<noteq> None) \<Longrightarrow> first_missing (JDict kvs) fs = Inr None"
  by (induction fs) auto

lemma present_fields:
  assumes "map_of kvs ''destination'' = Some dest" "map_of kvs ''days'' = Some d"
    "map_of kvs ''price'' = Some p" "map_of kvs ''hotel'' = Some h"
    "map_of kvs ''rating'' = Some r"
  shows "kvs \<noteq> []" and "first_missing (JDict kvs) required = Inr None"
proof -
  from assms(1) show "kvs \<noteq> []" by auto
  have "\<forall>g \<in> set required. map_of kvs (field_name g) \<noteq> None"
    using assms by (simp add: required_def)
  then show "first_missing (JDict kvs) required = Inr None" by (rule first_missing_none)
qed

lemma create_trip_complete:
  assumes "map_of kvs ''destination'' = Some dest" and "map_of kvs ''days'' = Some d"
    and "map_of kvs ''price'' = Some p" and "map_of kvs ''hotel'' = Some h"
    and "map_of kvs ''rating'' = Some r"
    and "py_int B d = Inr di" and "py_float B p = Inr pf" and "py_float B r = Inr rf"
  shows "\<exists>t. create_trip B ts (JDict kvs) = (ts @ [t], Inr (OneTrip t, 201)) \<and>
             trip_id t = get_next_id ts"
proof -
  note present = present_fields [OF assms(1-5)]
  from assms have "new_trip B ts (JDict kvs) =
      Inr \<lparr>trip_id = get_next_id ts, destination = dest, days = JInt di,
           price = JFloat pf, hotel = h, rating = JFloat rf\<rparr>"
    by (simp add: new_trip_def and_then_def)
  with present show ?thesis by (simp add: create_trip_def)
qed

text \<open>
  C1. In every state of the collection, a trip that \<^verbatim>\<open>create_trip\<close> creates is appended
  with the id \<open>1\<close> if the collection was empty and with the greatest id of the
  collection plus one otherwise. And \<^verbatim>\<open>create_trip\<close> does create a trip, with that id
  and status 201, for every object body that has the five required fields, with days
  that \<^verbatim>\<open>int\<close> accepts and a price and a rating that \<^verbatim>\<open>float\<close> accepts.
\<close>

theorem create_assigns_next_id:
  "(create_trip B ts data = (ts', Inr (OneTrip t, c)) \<longrightarrow>
      ts' = ts @ [t] \<and> c = 201 \<and>
      trip_id t = (if ts = [] then 1 else Max (trip_id ` set ts) + 1)) \<and>
   (map_of kvs ''destination'' = Some dest \<and> map_of kvs ''days'' = Some d \<and>
    map_of kvs ''price'' = Some p \<and> map_of kvs ''hotel'' = Some h \<and>
    map_of kvs ''rating'' = Some r \<and>
    py_int B d = Inr di \<and> py_float B p = Inr pf \<and> py_float B r = Inr rf \<longrightarrow>
      (\<exists>u. create_trip B ts (JDict kvs) = (ts @ [u], Inr (OneTrip u, 201)) \<and>
           trip_id u = (if ts = [] then 1 else Max (trip_id ` set ts) + 1)))"
proof (rule conjI; rule impI)
  assume a: "create_trip B ts data = (ts', Inr (OneTrip t, c))"
  from create_trip_cases [OF a] new_trip_id [of B ts data]
  show "ts' = ts @ [t] \<and> c = 201 \<and>
      trip_id t = (if ts = [] then 1 else Max (trip_id ` set ts) + 1)"
    by (auto simp: get_next_id_eq)
next
  assume "map_of kvs ''destination'' = Some dest \<and> map_of kvs ''days'' = Some d \<and>
    map_of kvs ''price'' = Some p \<and> map_of kvs ''hotel'' = Some h \<and>
    map_of kvs ''rating'' = Some r \<and>
    py_int B d = Inr di \<and> py_float B p = Inr pf \<and> py_float B r = Inr rf"
  then have "\<exists>u. create_trip B ts (JDict kvs) = (ts @ [u], Inr (OneTrip u, 201)) \<and>
             trip_id u = get_next_id ts"
    by (intro create_trip_complete [where d = d and p = p and r = r]) auto
  then show "\<exists>u. create_trip B ts (JDict kvs) = (ts @ [u], Inr (OneTrip u, 201)) \<and>
           trip_id u = (if ts = [] then 1 else Max (trip_id ` set ts) + 1)"
    by (simp add: get_next_id_eq)
qed

text \<open>
  The first trip gets the id 1 and the second the id 2; with the ids 1 and 3 in the
  collection the next id is 4, with the ids 1 to 4 it is 5, and it is the greatest id
  plus one also in a list that is not in the order of its ids.
\<close>

theorem create_assigns_next_id_witness:
  "(\<exists>u. create_trip plain_builtins [] paris_body = ([u], Inr (OneTrip u, 201)) \<and> trip_id u = 1) \<and>
   (\<exists>u. create_trip plain_builtins [paris] rome_body = ([paris, u], Inr (OneTrip u, 201)) \<and>
        trip_id u = 2) \<and>
   (\<exists>u. create_trip plain_builtins trips_1_3 rome_body = (trips_1_3 @ [u], Inr (OneTrip u, 201)) \<and>
        trip_id u = 4) \<and>
   (\<exists>u. create_trip plain_builtins [paris, rome, oslo, bern] paris_body =
          ([paris, rome, oslo, bern, u], Inr (OneTrip u, 201)) \<and> trip_id u = 5) \<and>
   (\<exists>u. create_trip plain_builtins [oslo, paris, rome] paris_body =
          ([oslo, paris, rome, u], Inr (OneTrip u, 201)) \<and> trip_id u = 4) \<and>
   create_trip plain_builtins [paris] rome_body = ([paris, rome], Inr (OneTrip rome, 201)) \<and>
   trip_id rome = Max (trip_id ` set [paris]) + 1"
proof -
  note step = create_assigns_next_id [where B = plain_builtins, THEN conjunct2, rule_format]
  have p: "\<exists>u. create_trip plain_builtins ts paris_body = (ts @ [u], Inr (OneTrip u, 201)) \<and>
           trip_id u = (if ts = [] then 1 else Max (trip_id ` set ts) + 1)" for ts
    unfolding paris_body_def trip_body_def
    by (rule step [where d = "JInt 3" and p = "JFloat (Finite 500)"
          and r = "JFloat (Finite (9 / 2))" and di = 3 and pf = "Finite 500"
          and rf = "Finite (9 / 2)"]) simp
  have r: "\<exists>u. create_trip plain_builtins ts rome_body = (ts @ [u], Inr (OneTrip u, 201)) \<and>
           trip_id u = (if ts = [] then 1 else Max (trip_id ` set ts) + 1)" for ts
    unfolding rome_body_def trip_body_def
    by (rule step [where d = "JInt 5" and p = "JFloat (Finite 300)" and r = "JFloat (Finite 4)"
          and di = 5 and pf = "Finite 300" and rf = "Finite 4"]) simp
  from create_assigns_next_id [where B = plain_builtins and ts = "[paris]" and data = rome_body
      and ts' = "[paris, rome]" and t = rome and c = 201] rome_created
  have c: "trip_id rome = Max (trip_id ` set [paris]) + 1" by simp
  from p [of "[]"] r [of "[paris]"] r [of trips_1_3] p [of "[paris, rome, oslo, bern]"]
    p [of "[oslo, paris, rome]"]
  have "(\<exists>u. create_trip plain_builtins [] paris_body = ([u], Inr (OneTrip u, 201)) \<and>
          trip_id u = 1) \<and>
   (\<exists>u. create_trip plain_builtins [paris] rome_body = ([paris, u], Inr (OneTrip u, 201)) \<and>
        trip_id u = 2) \<and>
   (\<exists>u. create_trip plain_builtins trips_1_3 rome_body = (trips_1_3 @ [u], Inr (OneTrip u, 201)) \<and>
        trip_id u = 4) \<and>
   (\<exists>u. create_trip plain_builtins [paris, rome, oslo, bern] paris_body =
          ([paris, rome, oslo, bern, u], Inr (OneTrip u, 201)) \<and> trip_id u = 5) \<and>
   (\<exists>u. create_trip plain_builtins [oslo, paris, rome] paris_body =
          ([oslo, paris, rome, u], Inr (OneTrip u, 201)) \<and> trip_id u = 4)"
    by (simp add: trips_1_3_def paris_def rome_def oslo_def bern_def)
  with rome_created c show ?thesis by (simp only: simp_thms)
qed

subsection \<open>Updating\<close>

text \<open>
  C6. For every collection, every id that no trip of the collection has and every
  body, \<^verbatim>\<open>update_trip\<close> answers "not found" with status 404 and the collection is the
  same list of the same records afterwards.
\<close>

theorem update_absent_id:
  assumes "i \<notin> trip_id ` set ts"
  shows "update_trip ts i data = (ts, Inr (Error TripNotFound, 404))"
proof -
  from assms have "find (\<lambda>t. trip_id t = i) ts = None"
    by (auto simp: find_None_iff)
  then show ?thesis by (simp add: update_trip_def)
qed

theorem update_absent_id_witness:
  "7 \<notin> trip_id ` set [paris, rome] \<and>
   update_trip [paris, rome] 7 rome_body = ([paris, rome], Inr (Error TripNotFound, 404))"
proof -
  have h: "7 \<notin> trip_id ` set [paris, rome]" by (simp add: paris_def rome_def)
  from update_absent_id [OF h] h show ?thesis by simp
qed

subsection \<open>Deleting\<close>

lemma filter_remove_one:
  assumes "distinct (map trip_id (xs @ t # ys))"
  shows "filter (\<lambda>u. trip_id u \<noteq> trip_id t) (xs @ t # ys) = xs @ ys"
proof -
  from assms have "trip_id t \<notin> trip_id ` set xs" and "trip_id t \<notin> trip_id ` set ys"
    by auto
  then have "\<forall>u \<in> set xs \<union> set ys. trip_id u \<noteq> trip_id t"
    by (metis Un_iff imageI)
  then show ?thesis by (simp add: filter_id_conv)
qed

lemma delete_absent:
  "i \<notin> trip_id ` set ts \<Longrightarrow> delete_trip ts i = (ts, Inr (Error TripNotFound, 404))"
proof -
  assume "i \<notin> trip_id ` set ts"
  then have "filter (\<lambda>t. trip_id t \<noteq> i) ts = ts" by (auto simp: filter_id_conv)
  then show ?thesis by (simp add: delete_trip_def)
qed

text \<open>
  C7. In every state of the service that holds a trip with the given id,
  \<^verbatim>\<open>delete_trip\<close> removes exactly that record: the other records stay as they are and
  in their order, the collection is one shorter, the answer is the confirmation with
  status 200, and the same delete on the new state answers "not found" with status 404
  and changes nothing.
\<close>

theorem delete_existing:
  assumes "reachable B ts" and "i \<in> trip_id ` set ts"
  shows "\<exists>xs t ys. ts = xs @ t # ys \<and> trip_id t = i \<and>
           delete_trip ts i = (xs @ ys, Inr (Message TripDeleted, 200)) \<and>
           Suc (length (xs @ ys)) = length ts \<and>
           delete_trip (xs @ ys) i = (xs @ ys, Inr (Error TripNotFound, 404))"
proof -
  from assms(2) obtain t where "t \<in> set ts" and ti: "trip_id t = i" by auto
  then obtain xs ys where ts: "ts = xs @ t # ys" by (auto dest: split_list)
  from reachable_ids_ok [OF assms(1)] have d: "distinct (map trip_id (xs @ t # ys))"
    by (simp add: ids_ok_def ts)
  have f: "filter (\<lambda>u. trip_id u \<noteq> i) ts = xs @ ys"
    using filter_remove_one [OF d] ti ts by simp
  have del: "delete_trip ts i = (xs @ ys, Inr (Message TripDeleted, 200))"
    unfolding delete_trip_def Let_def f by (simp add: ts)
  from d ti have "i \<notin> trip_id ` set (xs @ ys)" by auto
  then have "delete_trip (xs @ ys) i = (xs @ ys, Inr (Error TripNotFound, 404))"
    by (rule delete_absent)
  with ts ti del show ?thesis by auto
qed

theorem delete_existing_witness:
  "reachable plain_builtins [paris, rome] \<and> 1 \<in> trip_id ` set [paris, rome] \<and>
   delete_trip [paris, rome] 1 = ([rome], Inr (Message TripDeleted, 200)) \<and>
   delete_trip [rome] 1 = ([rome], Inr (Error TripNotFound, 404))"
proof -
  have h: "1 \<in> trip_id ` set [paris, rome]" by (simp add: paris_def)
  have d: "delete_trip [paris, rome] 1 = ([rome], Inr (Message TripDeleted, 200))"
    by (simp add: delete_trip_def paris_def rome_def)
  from delete_existing [OF reachable_paris_rome h] obtain xs ys where
    "delete_trip [paris, rome] 1 = (xs @ ys, Inr (Message TripDeleted, 200))"
    "delete_trip (xs @ ys) 1 = (xs @ ys, Inr (Error TripNotFound, 404))"
    by blast
  with d have "delete_trip [rome] 1 = ([rome], Inr (Error TripNotFound, 404))" by simp
  with reachable_paris_rome h d show ?thesis by simp
qed

subsection \<open>The frame of an update\<close>

lemma get_set_field:
  "get_field f (set_field g v t) = (if f = g then v else get_field f t)"
  by (cases f; cases g) simp_all

lemma update_fields_dict:
  "distinct fs \<Longrightarrow> update_fields (JDict kvs) t fs = (t', e) \<Longrightarrow>
     e = None \<and>
     (\<forall>f. get_field f t' =
        (if f \<in> set fs
         then (case map_of kvs (field_name f) of Some v \<Rightarrow> v | None \<Rightarrow> get_field f t)
         else get_field f t))"
proof (induction fs arbitrary: t)
  case Nil
  then show ?case by simp
next
  case (Cons g fs)
  show ?case
  proof (cases "map_of kvs (field_name g)")
    case None
    with Cons.prems have "update_fields (JDict kvs) t fs = (t', e)" by simp
    with Cons.IH [of t] Cons.prems(1) None show ?thesis by auto
  next
    case (Some v)
    with Cons.prems have "update_fields (JDict kvs) (set_field g v t) fs = (t', e)" by simp
    with Cons.IH [of "set_field g v t"] Cons.prems(1) Some show ?thesis
      by (auto simp: get_set_field split: option.splits)
  qed
qed

lemma getitem_not_dict: "\<forall>kvs. data \<noteq> JDict kvs \<Longrightarrow> py_getitem data f = Inl TypeError"
  by (cases data) simp_all

lemma update_fields_not_dict:
  "\<forall>kvs. data \<noteq> JDict kvs \<Longrightarrow> fst (update_fields data t fs) = t"
  by (induction fs arbitrary: t) (auto simp: getitem_not_dict split: sum.splits bool.splits)

lemma replace_first_split:
  "i \<notin> trip_id ` set xs \<Longrightarrow> trip_id t = i \<Longrightarrow>
     replace_first i t' (xs @ t # ys) = xs @ t' # ys"
  by (induction xs) auto

lemma find_split:
  "i \<notin> trip_id ` set xs \<Longrightarrow> trip_id t = i \<Longrightarrow>
     find (\<lambda>u. trip_id u = i) (xs @ t # ys) = Some t"
  by (induction xs) auto

lemma required_all: "f \<in> set required"
  by (cases f) (simp_all add: required_def)

lemma distinct_required: "distinct required"
  by (simp add: required_def)

text \<open>
  C9. For every collection holding a trip with the given id and every body,
  \<^verbatim>\<open>update_trip\<close> changes the first (in a state of the service: the only) trip with that
  id and no other record. Of that trip the id stays, also when the body has an \<^verbatim>\<open>id\<close>
  key; each of the five fields takes the value the body gives under its name when the
  body is an object that has the name, and keeps its value otherwise. For an object body
  the answer is the updated trip with status 200.
\<close>

theorem update_overwrites_present_fields:
  assumes "i \<in> trip_id ` set ts"
  shows "\<exists>xs t ys t'. ts = xs @ t # ys \<and> trip_id t = i \<and> i \<notin> trip_id ` set xs \<and>
           fst (update_trip ts i data) = xs @ t' # ys \<and> trip_id t' = i \<and>
           (\<forall>f. get_field f t' =
              (case data of
                 JDict kvs \<Rightarrow>
                   (case map_of kvs (field_name f) of Some v \<Rightarrow> v | None \<Rightarrow> get_field f t)
               | _ \<Rightarrow> get_field f t)) \<and>
           (\<forall>kvs. data = JDict kvs \<longrightarrow> snd (update_trip ts i data) = Inr (OneTrip t', 200))"
proof -
  from assms have "\<exists>u \<in> set ts. trip_id u = i" by auto
  then obtain xs t ys where ts: "ts = xs @ t # ys" and ti: "trip_id t = i"
    and first: "\<forall>u \<in> set xs. trip_id u \<noteq> i"
    by (auto simp: split_list_first_prop_iff)
  from first have nx: "i \<notin> trip_id ` set xs" by auto
  obtain t' e where u: "update_fields data t required = (t', e)" by force
  have fnd: "find (\<lambda>u. trip_id u = i) ts = Some t"
    unfolding ts by (rule find_split [OF nx ti])
  have rep: "replace_first i t' ts = xs @ t' # ys"
    unfolding ts by (rule replace_first_split [OF nx ti])
  have st: "fst (update_trip ts i data) = xs @ t' # ys"
    using fnd u rep by (cases e) (simp_all add: update_trip_def)
  have id': "trip_id t' = i" using update_fields_id [of data t required] u ti by simp
  have fields: "\<forall>f. get_field f t' =
      (case data of
         JDict kvs \<Rightarrow> (case map_of kvs (field_name f) of Some v \<Rightarrow> v | None \<Rightarrow> get_field f t)
       | _ \<Rightarrow> get_field f t)"
  proof (cases "\<exists>kvs. data = JDict kvs")
    case True
    then obtain kvs where d: "data = JDict kvs" by blast
    from update_fields_dict [OF distinct_required u [unfolded d]] show ?thesis
      by (simp add: d required_all)
  next
    case False
    then have nd: "\<forall>kvs. data \<noteq> JDict kvs" by blast
    from update_fields_not_dict [OF nd, of t required] u have "t' = t" by simp
    with nd show ?thesis by (cases data) simp_all
  qed
  have resp: "\<forall>kvs. data = JDict kvs \<longrightarrow> snd (update_trip ts i data) = Inr (OneTrip t', 200)"
  proof (intro allI impI)
    fix kvs assume d: "data = JDict kvs"
    from update_fields_dict [OF distinct_required u [unfolded d]] have "e = None" by simp
    with fnd u show "snd (update_trip ts i data) = Inr (OneTrip t', 200)"
      by (simp add: update_trip_def)
  qed
  from ts ti nx st id' fields resp show ?thesis by blast
qed

theorem update_overwrites_present_fields_witness:
  "1 \<in> trip_id ` set [paris, rome] \<and>
   update_trip [paris, rome] 1 (JDict [(''id'', JInt 9), (''price'', JInt 450)]) =
     ([paris\<lparr>price := JInt 450\<rparr>, rome], Inr (OneTrip (paris\<lparr>price := JInt 450\<rparr>), 200)) \<and>
   (\<exists>xs t ys t'. [paris, rome] = xs @ t # ys \<and> trip_id t = 1 \<and> 
      fst (update_trip [paris, rome] 1 (JDict [(''id'', JInt 9), (''price'', JInt 450)])) = xs @ t' # ys \<and>
      trip_id t' = 1 \<and> get_field Price t' = JInt 450 \<and> get_field Days t' = get_field Days t)"
proof -
  have h: "1 \<in> trip_id ` set [paris, rome]" by (simp add: paris_def)
  have u: "update_trip [paris, rome] 1 (JDict [(''id'', JInt 9), (''price'', JInt 450)]) =
     ([paris\<lparr>price := JInt 450\<rparr>, rome], Inr (OneTrip (paris\<lparr>price := JInt 450\<rparr>), 200))"
    by (simp add: update_trip_def required_def paris_def rome_def)
  from update_overwrites_present_fields [OF h, of "JDict [(''id'', JInt 9), (''price'', JInt 450)]"]
  obtain xs t ys t' where a: "[paris, rome] = xs @ t # ys" "trip_id t = 1"
     "fst (update_trip [paris, rome] 1 (JDict [(''id'', JInt 9), (''price'', JInt 450)])) = xs @ t' # ys"
     "trip_id t' = 1"
     and b: "\<forall>f. get_field f t' = (case map_of [(''id'', JInt 9), (''price'', JInt 450)] (field_name f) of Some v \<Rightarrow> v | None \<Rightarrow> get_field f t)"
    by auto
  from b [rule_format, of Price] have "get_field Price t' = JInt 450" by simp
  moreover from b [rule_format, of Days] have "get_field Days t' = get_field Days t" by simp
  ultimately show ?thesis using h u a by blast
qed

subsection \<open>Listing without a sort\<close>

lemma trip_get_keys: "trip_get s t \<noteq> None \<longleftrightarrow> s \<in> set trip_keys"
  by (simp add: trip_get_def trip_keys_def)

text \<open>
  C8. For every collection, \<^verbatim>\<open>get_trips\<close> called without a \<^verbatim>\<open>sort\<close> argument, or with
  one that is not a key of the records (the empty string included), answers the records
  in the order of the collection, which is the order of insertion, with status 200 and
  raises nothing, whatever the \<^verbatim>\<open>order\<close> argument.
\<close>

theorem list_without_sort:
  assumes "case sort_arg of None \<Rightarrow> True | Some s \<Rightarrow> s \<notin> set trip_keys"
  shows "get_trips B ts sort_arg order_arg = Inr (Trips ts, 200)"
proof (cases sort_arg)
  case None
  then show ?thesis by (simp add: get_trips_def)
next
  case (Some s)
  with assms have "\<forall>t. trip_get s t = None" using trip_get_keys [of s] by simp
  with Some show ?thesis by (cases ts) (simp_all add: get_trips_def)
qed

theorem list_without_sort_witness:
  "get_trips plain_builtins [paris, rome] None (Some ''desc'') = Inr (Trips [paris, rome], 200) \<and>
   ''cost'' \<notin> set trip_keys \<and>
   get_trips plain_builtins [paris, rome] (Some ''cost'') None = Inr (Trips [paris, rome], 200)"
proof -
  have h: "''cost'' \<notin> set trip_keys" by (simp add: trip_keys_def)
  from list_without_sort [of None plain_builtins "[paris, rome]" "Some ''desc''"]
    list_without_sort [of "Some ''cost''" plain_builtins "[paris, rome]" None] h
  show ?thesis by simp
qed

subsection \<open>Validation in create\<close>

lemma py_int_exc: "py_int B v = Inl e \<Longrightarrow> e \<in> {TypeError, ValueError, OverflowError}"
proof (cases v)
  case (JFloat x)
  assume "py_int B v = Inl e"
  with JFloat show ?thesis by (cases x) auto
qed (auto split: option.splits)

lemma float_of_int_exc: "float_of_int i = Inl e \<Longrightarrow> e = OverflowError"
  by (auto simp: float_of_int_def split: pyfloat.splits)

lemma py_float_exc: "py_float B v = Inl e \<Longrightarrow> e \<in> {TypeError, ValueError, OverflowError}"
  by (cases v) (auto split: option.splits dest: float_of_int_exc)

text \<open>
  C5 (as the code has it). For every body that is a non-empty JSON object: if one of
  the five required fields is missing, \<^verbatim>\<open>create_trip\<close> answers with status 400 and the
  message that names the first missing field in the order destination, days, price,
  hotel, rating, and the collection is unchanged (so the next id is, too); if all five
  are present and \<^verbatim>\<open>int\<close> accepts the days and \<^verbatim>\<open>float\<close> the price and the rating,
  it appends the trip with the next id, the converted numbers and the destination and
  hotel as given, and answers it with status 201.
\<close>

theorem create_validates_presence:
  assumes "kvs \<noteq> []"
  shows "((\<exists>f \<in> set required. map_of kvs (field_name f) = None) \<longrightarrow>
            (\<exists>pre f post. required = pre @ f # post \<and>
               (\<forall>g \<in> set pre. map_of kvs (field_name g) \<noteq> None) \<and>
               map_of kvs (field_name f) = None \<and>
               create_trip B ts (JDict kvs) =
                 (ts, Inr (Error (MissingField (field_name f)), 400)))) \<and>
         (\<forall>dest d p h r di pf rf.
            map_of kvs ''destination'' = Some dest \<and> map_of kvs ''days'' = Some d \<and>
            map_of kvs ''price'' = Some p \<and> map_of kvs ''hotel'' = Some h \<and>
            map_of kvs ''rating'' = Some r \<and>
            py_int B d = Inr di \<and> py_float B p = Inr pf \<and> py_float B r = Inr rf \<longrightarrow>
            create_trip B ts (JDict kvs) =
              (ts @ [\<lparr>trip_id = get_next_id ts, destination = dest, days = JInt di,
                      price = JFloat pf, hotel = h, rating = JFloat rf\<rparr>],
               Inr (OneTrip \<lparr>trip_id = get_next_id ts, destination = dest, days = JInt di,
                      price = JFloat pf, hotel = h, rating = JFloat rf\<rparr>, 201)))"
proof (intro conjI impI allI)
  assume "\<exists>f \<in> set required. map_of kvs (field_name f) = None"
  then obtain pre f post where sp: "required = pre @ f # post"
    and miss: "map_of kvs (field_name f) = None"
    and pre: "\<forall>g \<in> set pre. \<not> map_of kvs (field_name g) = None"
    by (auto simp: split_list_first_prop_iff)
  from first_missing_found [of pre kvs f post] pre miss
  have "first_missing (JDict kvs) required = Inr (Some f)" by (simp add: sp)
  with assms have "create_trip B ts (JDict kvs) = (ts, Inr (Error (MissingField (field_name f)), 400))"
    by (simp add: create_trip_def)
  with sp miss pre show "\<exists>pre f post. required = pre @ f # post \<and>
               (\<forall>g \<in> set pre. map_of kvs (field_name g) \<noteq> None) \<and>
               map_of kvs (field_name f) = None \<and>
               create_trip B ts (JDict kvs) =
                 (ts, Inr (Error (MissingField (field_name f)), 400))"
    by blast
next
  fix dest d p h r di pf rf
  assume a: "map_of kvs ''destination'' = Some dest \<and> map_of kvs ''days'' = Some d \<and>
            map_of kvs ''price'' = Some p \<and> map_of kvs ''hotel'' = Some h \<and>
            map_of kvs ''rating'' = Some r \<and>
            py_int B d = Inr di \<and> py_float B p = Inr pf \<and> py_float B r = Inr rf"
  then have fm: "first_missing (JDict kvs) required = Inr None"
    by (intro present_fields(2)) auto
  from a have "new_trip B ts (JDict kvs) =
      Inr \<lparr>trip_id = get_next_id ts, destination = dest, days = JInt di,
                      price = JFloat pf, hotel = h, rating = JFloat rf\<rparr>"
    by (simp add: new_trip_def and_then_def)
  with fm assms show "create_trip B ts (JDict kvs) =
              (ts @ [\<lparr>trip_id = get_next_id ts, destination = dest, days = JInt di,
                      price = JFloat pf, hotel = h, rating = JFloat rf\<rparr>],
               Inr (OneTrip \<lparr>trip_id = get_next_id ts, destination = dest, days = JInt di,
                      price = JFloat pf, hotel = h, rating = JFloat rf\<rparr>, 201))"
    by (simp add: create_trip_def)
qed

theorem create_validates_presence_witness:
  "create_trip plain_builtins [paris] no_hotel_body =
     ([paris], Inr (Error (MissingField ''hotel''), 400)) \<and>
   create_trip plain_builtins [paris] rome_body = ([paris, rome], Inr (OneTrip rome, 201))"
proof -
  let ?kvs = "[(''destination'', JStr ''Rome''), (''days'', JInt 5), (''price'', JInt 300),
            (''rating'', JInt 4)]"
  let ?full = "[(''destination'', JStr ''Rome''), (''days'', JInt 5),
      (''price'', JFloat (Finite 300)), (''hotel'', JStr ''Hilton''), (''rating'', JFloat (Finite 4))]"
  have only: "map_of ?kvs (field_name f) = None \<longleftrightarrow> f = Hotel" for f
    by (cases f) simp_all
  then have "\<exists>f \<in> set required. map_of ?kvs (field_name f) = None"
    by (auto simp: required_def)
  with create_validates_presence [of ?kvs plain_builtins "[paris]"]
  obtain f where "map_of ?kvs (field_name f) = None"
    and "create_trip plain_builtins [paris] (JDict ?kvs) =
           ([paris], Inr (Error (MissingField (field_name f)), 400))"
    by auto
  with only have a: "create_trip plain_builtins [paris] no_hotel_body =
     ([paris], Inr (Error (MissingField ''hotel''), 400))"
    by (simp add: no_hotel_body_def)
  have n: "get_next_id [paris] = 2" by (simp add: get_next_id_def paris_def)
  from create_validates_presence [of ?full plain_builtins "[paris]"]
  have "create_trip plain_builtins [paris] (JDict ?full) =
          ([paris] @ [\<lparr>trip_id = get_next_id [paris], destination = JStr ''Rome'', days = JInt 5,
                      price = JFloat (Finite 300), hotel = JStr ''Hilton'', rating = JFloat (Finite 4)\<rparr>],
               Inr (OneTrip \<lparr>trip_id = get_next_id [paris], destination = JStr ''Rome'', days = JInt 5,
                      price = JFloat (Finite 300), hotel = JStr ''Hilton'', rating = JFloat (Finite 4)\<rparr>, 201))"
    by simp
  then have b: "create_trip plain_builtins [paris] rome_body = ([paris, rome], Inr (OneTrip rome, 201))"
    by (simp add: n rome_body_def trip_body_def rome_def)
  from a b show ?thesis by simp
qed

text \<open>
  The empty object misses all five fields, and the answer names none of them: the guard
  \<^verbatim>\<open>if not data\<close> answers "incorrect JSON" first.
\<close>

theorem create_empty_object_counterexample:
  "create_trip plain_builtins [] (JDict []) = ([], Inr (Error InvalidJson, 400))"
  by (simp add: create_trip_def)

text \<open>
  With all five fields present, a number that a conversion rejects makes \<^verbatim>\<open>create_trip\<close>
  raise the exception of the conversion (\<^verbatim>\<open>TypeError\<close>, \<^verbatim>\<open>ValueError\<close> or
  \<^verbatim>\<open>OverflowError\<close>) before it appends anything: the handler has neither a check of
  the numbers nor a \<^verbatim>\<open>try\<close>.
\<close>

lemma malformed_number_raises:
  assumes "map_of kvs ''destination'' = Some dest" and "map_of kvs ''days'' = Some d"
    and "map_of kvs ''price'' = Some p" and "map_of kvs ''hotel'' = Some h"
    and "map_of kvs ''rating'' = Some r"
    and "(\<exists>e. py_int B d = Inl e) \<or> (\<exists>e. py_float B p = Inl e) \<or> (\<exists>e. py_float B r = Inl e)"
  shows "\<exists>e \<in> {TypeError, ValueError, OverflowError}. create_trip B ts (JDict kvs) = (ts, Inl e)"
proof -
  note present = present_fields [OF assms(1-5)]
  have "\<exists>e \<in> {TypeError, ValueError, OverflowError}. new_trip B ts (JDict kvs) = Inl e"
  proof (cases "py_int B d")
    case (Inl e)
    with assms(1,2) py_int_exc [OF Inl] show ?thesis
      by (simp add: new_trip_def and_then_def)
  next
    case di: (Inr di)
    show ?thesis
    proof (cases "py_float B p")
      case (Inl e)
      with assms(1-3) di py_float_exc [OF Inl] show ?thesis
        by (simp add: new_trip_def and_then_def)
    next
      case pf: (Inr pf)
      with di assms(6) obtain e where e: "py_float B r = Inl e" by auto
      with assms(1-5) di pf py_float_exc [OF e] show ?thesis
        by (simp add: new_trip_def and_then_def)
    qed
  qed
  then obtain e where "e \<in> {TypeError, ValueError, OverflowError}"
    and "new_trip B ts (JDict kvs) = Inl e" by blast
  with present show ?thesis by (simp add: create_trip_def)
qed

text \<open>
  C4 does not hold of the code. The body has all five fields and \<^verbatim>\<open>"days": "three"\<close>:
  \<^verbatim>\<open>int("three")\<close> raises \<^verbatim>\<open>ValueError\<close>, so the outcome of \<^verbatim>\<open>create_trip\<close> is that
  exception and not a response with status 400 that reports a validation error, which
  the same handler does give for a body without the \<^verbatim>\<open>hotel\<close> field. The collection is
  unchanged.
\<close>

theorem create_malformed_days_raises:
  "create_trip plain_builtins [paris] oslo_body = ([paris], Inl ValueError) \<and>
   create_trip plain_builtins [paris] no_hotel_body =
     ([paris], Inr (Error (MissingField ''hotel''), 400))"
  by (simp add: create_eval oslo_body_def no_hotel_body_def plain_builtins_def
      signed_digits_def)

subsection \<open>Ids are reused\<close>

lemma created_id:
  "create_trip B ts data = (ts', Inr (OneTrip t, c)) \<Longrightarrow> trip_id t = get_next_id ts"
  using create_trip_cases [of B ts data ts' "Inr (OneTrip t, c)"] new_trip_id [of B ts data]
  by auto

lemma delete_present_outcome:
  assumes "i \<in> trip_id ` set ts"
  shows "snd (delete_trip ts i) = Inr (Message TripDeleted, 200)"
proof -
  from assms obtain t where "t \<in> set ts" and "\<not> trip_id t \<noteq> i" by auto
  then have "length (filter (\<lambda>t. trip_id t \<noteq> i) ts) < length ts"
    by (rule length_filter_less)
  then show ?thesis by (simp add: delete_trip_def Let_def)
qed

text \<open>
  C10 (as the code has it). Ids are unique among the records that exist, not over the
  life of the collection. In every state of the service that holds a record, after
  \<^verbatim>\<open>delete_trip\<close> of the greatest id \<open>m\<close> the next trip that \<^verbatim>\<open>create_trip\<close> creates gets
  the greatest remaining id plus one, or 1 when nothing remains. That id is at most
  \<open>m\<close> and no remaining record has it; it is \<open>m\<close> again exactly when the greatest
  remaining id is \<open>m - 1\<close> (or when \<open>m = 1\<close> and nothing remains).
\<close>

theorem next_id_after_deleting_max:
  assumes "reachable B ts" and "ts \<noteq> []"
    and "m = Max (trip_id ` set ts)"
    and "delete_trip ts m = (ts', out)"
    and "create_trip B ts' data = (ts'', Inr (OneTrip t, c))"
  shows "out = Inr (Message TripDeleted, 200) \<and>
         trip_id t = (if ts' = [] then 1 else Max (trip_id ` set ts') + 1) \<and>
         trip_id t \<le> m \<and> trip_id t \<notin> trip_id ` set ts' \<and>
         (trip_id t = m \<longleftrightarrow> (if ts' = [] then m = 1 else Max (trip_id ` set ts') = m - 1))"
proof -
  from assms(2,3) have m_in: "m \<in> trip_id ` set ts" using Max_in [of "trip_id ` set ts"] by simp
  from delete_present_outcome [OF m_in] assms(4)
  have out: "out = Inr (Message TripDeleted, 200)" by simp
  from assms(4) have ts': "ts' = filter (\<lambda>u. trip_id u \<noteq> m) ts"
    using fst_delete_trip [of ts m] by simp
  have below: "trip_id u < m" if "u \<in> set ts'" for u
  proof -
    from that ts' have "u \<in> set ts" and "trip_id u \<noteq> m" by auto
    moreover from \<open>u \<in> set ts\<close> assms(3) have "trip_id u \<le> m" by simp
    ultimately show ?thesis by simp
  qed
  from created_id [OF assms(5)]
  have id_t: "trip_id t = (if ts' = [] then 1 else Max (trip_id ` set ts') + 1)"
    by (simp add: get_next_id_eq)
  from reachable_ids_ok [OF assms(1)] m_in have "0 < m" by (auto simp: ids_ok_def)
  show ?thesis
  proof (cases "ts' = []")
    case True
    with id_t out \<open>0 < m\<close> show ?thesis by auto
  next
    case False
    then have "Max (trip_id ` set ts') \<in> trip_id ` set ts'" by (intro Max_in) auto
    with below have lt: "Max (trip_id ` set ts') < m" by auto
    have fresh: "trip_id t \<notin> trip_id ` set ts'"
    proof
      assume "trip_id t \<in> trip_id ` set ts'"
      then have "trip_id t \<le> Max (trip_id ` set ts')" by (intro Max_ge) auto
      with id_t False show False by simp
    qed
    from lt have "Max (trip_id ` set ts') + 1 \<le> m" by simp
    with id_t False fresh out show ?thesis by auto
  qed
qed

text \<open>
  The state with the ids 1 and 3 is reached by three creations and the deletion of
  id 2. After the deletion of id 3 the next trip gets the id 2, not 3.
\<close>

theorem next_id_after_deleting_max_counterexample:
  "reachable plain_builtins trips_1_3 \<and> Max (trip_id ` set trips_1_3) = 3 \<and>
   delete_trip trips_1_3 3 = ([paris], Inr (Message TripDeleted, 200)) \<and>
   create_trip plain_builtins [paris] rome_body = ([paris, rome], Inr (OneTrip rome, 201)) \<and>
   trip_id rome = 2"
proof -
  have "Max (trip_id ` set trips_1_3) = 3" by (simp add: trips_1_3_def paris_def rome_def)
  moreover have "delete_trip trips_1_3 3 = ([paris], Inr (Message TripDeleted, 200))"
    by (simp add: delete_trip_def trips_1_3_def paris_def rome_def)
  moreover have "trip_id rome = 2" by (simp add: rome_def)
  ultimately show ?thesis using reachable_trips_1_3 rome_created by simp
qed

theorem next_id_after_deleting_max_witness:
  "reachable plain_builtins [paris, rome] \<and> [paris, rome] \<noteq> [] \<and>
   2 = Max (trip_id ` set [paris, rome]) \<and>
   delete_trip [paris, rome] 2 = ([paris], Inr (Message TripDeleted, 200)) \<and>
   create_trip plain_builtins [paris] rome_body = ([paris, rome], Inr (OneTrip rome, 201)) \<and>
   trip_id rome = 2 \<and> trip_id rome \<notin> trip_id ` set [paris]"
proof -
  have m: "2 = Max (trip_id ` set [paris, rome])" by (simp add: paris_def rome_def)
  have d: "delete_trip [paris, rome] 2 = ([paris], Inr (Message TripDeleted, 200))"
    by (simp add: delete_trip_def paris_def rome_def)
  have ne: "[paris, rome] \<noteq> []" by simp
  from next_id_after_deleting_max [OF reachable_paris_rome ne m d rome_created]
  have "trip_id rome = 2" and "trip_id rome \<notin> trip_id ` set [paris]"
    by (simp_all add: paris_def)
  with reachable_paris_rome m d rome_created show ?thesis by simp
qed

subsection \<open>Listing with a sort\<close>

lemma insort_py_eq:
  fixes r :: "json \<Rightarrow> 'a::linorder"
  assumes lt: "\<And>a b. a \<in> K \<Longrightarrow> b \<in> K \<Longrightarrow> py_lt B a b = Inr (r a < r b)"
    and "k x \<in> K" and "\<forall>y \<in> set ys. k y \<in> K"
  shows "insort_py B k x ys = Inr (insort_key (\<lambda>t. r (k t)) x ys)"
  using assms(3)
proof (induction ys)
  case Nil
  show ?case by simp
next
  case (Cons y ys)
  then have "py_lt B (k y) (k x) = Inr (r (k y) < r (k x))"
    using lt [of "k y" "k x"] assms(2) by simp
  with Cons show ?case by (auto simp: and_then_def not_le split: bool.splits)
qed

lemma sort_py_eq:
  fixes r :: "json \<Rightarrow> 'a::linorder"
  assumes lt: "\<And>a b. a \<in> K \<Longrightarrow> b \<in> K \<Longrightarrow> py_lt B a b = Inr (r a < r b)"
    and "\<forall>y \<in> set xs. k y \<in> K"
  shows "sort_py B k xs = Inr (sort_key (\<lambda>t. r (k t)) xs)"
  using assms(2)
proof (induction xs)
  case Nil
  show ?case by simp
next
  case (Cons x xs)
  then have "sort_py B k xs = Inr (sort_key (\<lambda>t. r (k t)) xs)" by simp
  moreover have "insort_py B k x (sort_key (\<lambda>t. r (k t)) xs) =
      Inr (insort_key (\<lambda>t. r (k t)) x (sort_key (\<lambda>t. r (k t)) xs))"
  proof (rule insort_py_eq [where K = K])
    show "py_lt B a b = Inr (r a < r b)" if "a \<in> K" "b \<in> K" for a b
      using that by (rule lt)
    show "k x \<in> K" using Cons.prems by simp
    show "\<forall>y \<in> set (sort_key (\<lambda>t. r (k t)) xs). k y \<in> K" using Cons.prems by simp
  qed
  ultimately show ?case by (simp add: and_then_def)
qed

lemma list_sort_ranked:
  fixes r :: "json \<Rightarrow> 'a::linorder"
  assumes lt: "\<And>a b. a \<in> K \<Longrightarrow> b \<in> K \<Longrightarrow> py_lt B a b = Inr (r a < r b)"
    and keys: "\<forall>y \<in> set xs. k y \<in> K"
  shows "\<exists>ys. list_sort B k rv xs = Inr ys \<and> mset ys = mset xs \<and>
           (if rv then sorted_wrt (\<lambda>a b. py_lt B (k a) (k b) = Inr False) ys
            else sorted_wrt (\<lambda>a b. py_lt B (k b) (k a) = Inr False) ys) \<and>
           (\<forall>t0 \<in> set xs. filter (\<lambda>t. key_tied B (k t) (k t0)) ys =
                          filter (\<lambda>t. key_tied B (k t) (k t0)) xs)"
proof -
  let ?f = "\<lambda>t. r (k t)"
  define ys where "ys = (if rv then rev (sort_key ?f (rev xs)) else sort_key ?f xs)"
  have set_ys: "set ys = set xs" by (simp add: ys_def)
  have res: "list_sort B k rv xs = Inr ys"
  proof (cases rv)
    case True
    from keys have "\<forall>y \<in> set (rev xs). k y \<in> K" by simp
    from sort_py_eq [OF lt this] True show ?thesis
      by (simp add: list_sort_def and_then_def ys_def)
  next
    case False
    with sort_py_eq [OF lt keys] show ?thesis by (simp add: list_sort_def ys_def)
  qed
  have ms: "mset ys = mset xs" by (simp add: ys_def)
  have le_iff: "py_lt B (k b) (k a) = Inr False \<longleftrightarrow> ?f a \<le> ?f b"
    if "a \<in> set xs" "b \<in> set xs" for a b
    using lt [of "k b" "k a"] keys that by (auto simp: not_less)
  have tied_iff: "key_tied B (k t) (k t0) \<longleftrightarrow> ?f t = ?f t0"
    if "t \<in> set xs" "t0 \<in> set xs" for t t0
    using le_iff [OF that] le_iff [OF that(2,1)] by (auto simp: key_tied_def)
  have ord: "if rv then sorted_wrt (\<lambda>a b. py_lt B (k a) (k b) = Inr False) ys
            else sorted_wrt (\<lambda>a b. py_lt B (k b) (k a) = Inr False) ys"
  proof (cases rv)
    case True
    have "sorted (map ?f (sort_key ?f (rev xs)))" by (rule sorted_sort_key)
    then have "sorted_wrt (\<lambda>a b. ?f a \<le> ?f b) (sort_key ?f (rev xs))"
      by (simp add: sorted_map)
    then have "sorted_wrt (\<lambda>a b. ?f b \<le> ?f a) ys"
      using True by (simp add: ys_def sorted_wrt_rev)
    then have "sorted_wrt (\<lambda>a b. py_lt B (k a) (k b) = Inr False) ys"
      by (rule sorted_wrt_mono_rel [rotated]) (simp add: le_iff set_ys)
    with True show ?thesis by simp
  next
    case False
    have "sorted (map ?f (sort_key ?f xs))" by (rule sorted_sort_key)
    then have "sorted_wrt (\<lambda>a b. ?f a \<le> ?f b) ys"
      using False by (simp add: ys_def sorted_map)
    then have "sorted_wrt (\<lambda>a b. py_lt B (k b) (k a) = Inr False) ys"
      by (rule sorted_wrt_mono_rel [rotated]) (simp add: le_iff set_ys)
    with False show ?thesis by simp
  qed
  have stable: "filter (\<lambda>t. key_tied B (k t) (k t0)) ys = filter (\<lambda>t. key_tied B (k t) (k t0)) xs"
    if t0: "t0 \<in> set xs" for t0
  proof -
    have "filter (\<lambda>t. ?f t = ?f t0) ys = filter (\<lambda>t. ?f t = ?f t0) xs"
    proof (cases rv)
      case True
      have "filter (\<lambda>t. ?f t = ?f t0) (sort_key ?f (rev xs)) = filter (\<lambda>t. ?f t = ?f t0) (rev xs)"
        by (rule sort_key_stable)
      then have "rev (filter (\<lambda>t. ?f t = ?f t0) (sort_key ?f (rev xs))) = filter (\<lambda>t. ?f t = ?f t0) xs"
        by (simp add: rev_filter)
      with True show ?thesis by (simp add: ys_def rev_filter)
    next
      case False
      then show ?thesis by (simp add: ys_def sort_key_stable)
    qed
    moreover have "filter (\<lambda>t. key_tied B (k t) (k t0)) ys = filter (\<lambda>t. ?f t = ?f t0) ys"
      by (rule filter_cong) (simp_all add: tied_iff set_ys t0)
    moreover have "filter (\<lambda>t. key_tied B (k t) (k t0)) xs = filter (\<lambda>t. ?f t = ?f t0) xs"
      by (rule filter_cong) (simp_all add: tied_iff t0)
    ultimately show ?thesis by simp
  qed
  from res ms ord stable show ?thesis by blast
qed

lemma py_lt_numbers:
  "is_number a \<Longrightarrow> is_number b \<Longrightarrow> py_lt B a b = Inr (num_rank a < num_rank b)"
  by (auto simp: is_number_def py_lt_def num_rank_def float_lt_def less_prod_def
      split: option.splits)

lemma py_lt_strings:
  "is_string a \<Longrightarrow> is_string b \<Longrightarrow> py_lt B a b = Inr (str_rank a < str_rank b)"
  by (auto simp: is_string_def py_lt_def str_rank_def split: json.splits)

lemma list_sort_comparable:
  assumes "comparable_keys (map k xs)"
  shows "\<exists>ys. list_sort B k rv xs = Inr ys \<and> mset ys = mset xs \<and>
           (if rv then sorted_wrt (\<lambda>a b. py_lt B (k a) (k b) = Inr False) ys
            else sorted_wrt (\<lambda>a b. py_lt B (k b) (k a) = Inr False) ys) \<and>
           (\<forall>t0 \<in> set xs. filter (\<lambda>t. key_tied B (k t) (k t0)) ys =
                          filter (\<lambda>t. key_tied B (k t) (k t0)) xs)"
proof -
  from assms consider "\<forall>y \<in> set xs. k y \<in> Collect is_number"
    | "\<forall>y \<in> set xs. k y \<in> Collect is_string"
    by (auto simp: comparable_keys_def list_all_iff)
  then show ?thesis
  proof cases
    case 1
    show ?thesis
      by (rule list_sort_ranked [where r = num_rank and K = "Collect is_number", OF _ 1])
        (simp add: py_lt_numbers)
  next
    case 2
    show ?thesis
      by (rule list_sort_ranked [where r = str_rank and K = "Collect is_string", OF _ 2])
        (simp add: py_lt_strings)
  qed
qed

text \<open>
  C3 (as the code has it). For every collection and every sort field that is a key of
  the records, if the values of that field are all numbers other than NaN or all strings,
  \<^verbatim>\<open>get_trips\<close> answers a rearrangement of the records with status 200 that is ascending
  in the field (no record is followed by one with a lesser value), and descending (no
  record is followed by one with a greater value) when the \<^verbatim>\<open>order\<close> argument, lowered,
  is \<^verbatim>\<open>desc\<close>. In both orders the sort is stable: the records whose values tie with a
  given record's stand in their order of insertion.
\<close>

theorem list_sorted_stable:
  assumes "s \<in> set trip_keys" and "comparable_keys (map (sort_key_of s) ts)"
  shows "\<exists>ys. get_trips B ts (Some s) order_arg = Inr (Trips ys, 200) \<and> mset ys = mset ts \<and>
           (if descending order_arg
            then sorted_wrt (\<lambda>a b. py_lt B (sort_key_of s a) (sort_key_of s b) = Inr False) ys
            else sorted_wrt (\<lambda>a b. py_lt B (sort_key_of s b) (sort_key_of s a) = Inr False) ys) \<and>
           (\<forall>t0 \<in> set ts.
              filter (\<lambda>t. key_tied B (sort_key_of s t) (sort_key_of s t0)) ys =
              filter (\<lambda>t. key_tied B (sort_key_of s t) (sort_key_of s t0)) ts)"
proof (cases ts)
  case Nil
  then show ?thesis by (simp add: get_trips_def)
next
  case (Cons t0 rest)
  from assms(1) have s: "s \<noteq> []" "trip_get s t0 \<noteq> None"
    by (auto simp: trip_keys_def trip_get_def)
  from list_sort_comparable [OF assms(2), of B "descending order_arg"]
  obtain ys where ys: "list_sort B (sort_key_of s) (descending order_arg) ts = Inr ys"
    and rest: "mset ys = mset ts"
      "if descending order_arg
       then sorted_wrt (\<lambda>a b. py_lt B (sort_key_of s a) (sort_key_of s b) = Inr False) ys
       else sorted_wrt (\<lambda>a b. py_lt B (sort_key_of s b) (sort_key_of s a) = Inr False) ys"
      "\<forall>t0 \<in> set ts.
              filter (\<lambda>t. key_tied B (sort_key_of s t) (sort_key_of s t0)) ys =
              filter (\<lambda>t. key_tied B (sort_key_of s t) (sort_key_of s t0)) ts"
    by blast
  from ys s Cons have "get_trips B ts (Some s) order_arg = Inr (Trips ys, 200)"
    by (simp add: get_trips_def descending_def and_then_def)
  with rest show ?thesis by blast
qed

theorem list_sorted_stable_witness:
  "''price'' \<in> set trip_keys \<and>
   comparable_keys (map (sort_key_of ''price'') [paris, rome, oslo, bern]) \<and>
   descending (Some ''desc'') \<and> \<not> descending None \<and>
   get_trips plain_builtins [paris, rome, oslo, bern] (Some ''price'') (Some ''desc'') =
     Inr (Trips [oslo, paris, rome, bern], 200) \<and>
   get_trips plain_builtins [paris, rome, oslo, bern] (Some ''price'') None =
     Inr (Trips [rome, bern, paris, oslo], 200) \<and>
   sorted_wrt (\<lambda>a b. py_lt plain_builtins (sort_key_of ''price'' a) (sort_key_of ''price'' b)
                 = Inr False) [oslo, paris, rome, bern]"
proof -
  note ev = get_trips_def list_sort_def sort_key_of_def trip_get_def lower_char_def
      py_lt_def float_lt_def and_then_def paris_def rome_def oslo_def bern_def
  have k: "''price'' \<in> set trip_keys" by (simp add: trip_keys_def)
  have c: "comparable_keys (map (sort_key_of ''price'') [paris, rome, oslo, bern])"
    by (simp add: comparable_keys_def is_number_def sort_key_of_def trip_get_def
        paris_def rome_def oslo_def bern_def)
  have d: "descending (Some ''desc'')" "\<not> descending None"
    by (simp_all add: descending_def lower_char_def)
  have g1: "get_trips plain_builtins [paris, rome, oslo, bern] (Some ''price'') (Some ''desc'') =
     Inr (Trips [oslo, paris, rome, bern], 200)" by (simp add: ev)
  have g2: "get_trips plain_builtins [paris, rome, oslo, bern] (Some ''price'') None =
     Inr (Trips [rome, bern, paris, oslo], 200)" by (simp add: ev)
  from list_sorted_stable [OF k c, of plain_builtins "Some ''desc''"] g1 d(1)
  have "sorted_wrt (\<lambda>a b. py_lt plain_builtins (sort_key_of ''price'' a) (sort_key_of ''price'' b)
                 = Inr False) [oslo, paris, rome, bern]"
    by auto
  with k c d g1 g2 show ?thesis by simp
qed

text \<open>
  After an update has stored the string \<^verbatim>\<open>"five"\<close> as the days of the second trip,
  sorting by days compares it with the integer 3 and raises \<^verbatim>\<open>TypeError\<close>.
\<close>

theorem list_sorted_stable_counterexample:
  "reachable plain_builtins trips_mixed \<and>
   get_trips plain_builtins trips_mixed (Some ''days'') None = Inl TypeError"
proof -
  have "get_trips plain_builtins trips_mixed (Some ''days'') None = Inl TypeError"
    by (simp add: get_trips_def list_sort_def sort_key_of_def trip_get_def lower_char_def
        py_lt_def and_then_def trips_mixed_def paris_def rome_def)
  with reachable_trips_mixed show ?thesis by simp
qed

subsection \<open>Rounding\<close>

lemma round_half_even_of_int: "round_half_even (of_int z) = z"
  by (simp add: round_half_even_def)








lemma round_half_even_numeral: "round_half_even (numeral w) = numeral w"
  using round_half_even_of_int [of "numeral w"] by simp







subsection \<open>Statistics\<close>






































end
